theory Spec2Isabelle
  imports Main "HOL-Library.Multiset"
begin

section \<open>JavaScript values\<close>

text \<open>
  The values that flow through \<^verbatim>\<open>lib/Step.js\<close>. Numbers are the integers (steps are
  addressed by integer positions), a function is identified by a name and is opaque, an array is
  a list of slots in which a hole is \<open>None\<close>, and any other object (an \<^verbatim>\<open>Error\<close>, say) is
  identified by a name. \<open>Bound_done i\<close> is the function \<^verbatim>\<open>done.bind(root, i)\<close> that
  \<^verbatim>\<open>parallel\<close> hands to its branch number \<open>i\<close>.
\<close>

datatype jsval =
    Undefined
  | Null
  | Bool bool
  | Num int
  | Str string
  | Fn string
  | Bound_done nat
  | Arr "jsval option list"
  | Obj string

text \<open>The conversion to a boolean made by \<^verbatim>\<open>if(err)\<close>, \<^verbatim>\<open>!targetStep\<close> and \<^verbatim>\<open>err || null\<close>.\<close>

fun truthy :: "jsval \<Rightarrow> bool" where
  "truthy Undefined = False"
| "truthy Null = False"
| "truthy (Bool b) = b"
| "truthy (Num n) = (n \<noteq> 0)"
| "truthy (Str s) = (s \<noteq> [])"
| "truthy (Fn f) = True"
| "truthy (Bound_done i) = True"
| "truthy (Arr xs) = True"
| "truthy (Obj x) = True"

text \<open>\<^verbatim>\<open>util.isFunction(v)\<close>, \<^verbatim>\<open>typeof v === 'function'\<close>.\<close>

fun isFunction :: "jsval \<Rightarrow> bool" where
  "isFunction (Fn f) = True"
| "isFunction (Bound_done i) = True"
| "isFunction v = False"

text \<open>\<^verbatim>\<open>args[i]\<close> on an argument list: reading past the end gives \<^verbatim>\<open>undefined\<close>.\<close>

definition arg :: "jsval list \<Rightarrow> nat \<Rightarrow> jsval" where
  "arg xs i = (if i < length xs then xs ! i else Undefined)"

text \<open>\<^verbatim>\<open>a[n] = r\<close> on an array: a write past the end extends the array with holes.\<close>

definition array_set :: "jsval option list \<Rightarrow> nat \<Rightarrow> jsval \<Rightarrow> jsval option list" where
  "array_set a n r =
     (if n < length a then a[n := Some r]
      else a @ replicate (n - length a) None @ [Some r])"

datatype exn = Error string | TypeError string

section \<open>Steps, tasks and the world they live in\<close>

text \<open>
  A step object: the four fields set by the constructor, and \<^verbatim>\<open>_index\<close> and
  \<^verbatim>\<open>_debug\<close>, which the methods read. \<open>task\<close> is the reference \<^verbatim>\<open>_task\<close> to the owning
  task object, an address into the world's table of tasks.
\<close>

record Step =
  task :: nat
  stepName :: string
  stepHandle :: jsval
  knownArgs :: "jsval list"
  index :: int
  debug :: bool

text \<open>
  A task object, as far as \<^verbatim>\<open>Step.js\<close> reads and writes it: \<^verbatim>\<open>_taskName\<close>,
  \<^verbatim>\<open>_steps\<close>, \<^verbatim>\<open>_currIndex\<close>, \<^verbatim>\<open>_variables\<close> and the function \<^verbatim>\<open>_result\<close>.
  Modelled from the spec: the variable store, which \<^verbatim>\<open>Task.js\<close> (not among the sources)
  creates, is a mapping from key to value; a key is the property key of the slot.
\<close>

record Task =
  taskName :: string
  steps :: "Step list"
  currIndex :: int
  variables :: "string \<rightharpoonup> jsval"
  task_result :: jsval

text \<open>The receiver of a call: \<^verbatim>\<open>this\<close> is a step, a task, or \<^verbatim>\<open>undefined\<close> (strict mode).\<close>

datatype this_ref = This_undefined | This_step Step | This_task nat

text \<open>
  What leaves \<^verbatim>\<open>Step.js\<close>: a call of an opaque function with its receiver and arguments,
  \<^verbatim>\<open>task.emit(name, ...)\<close>, and the call of the handler of a step made by \<^verbatim>\<open>task._run\<close>.
\<close>

datatype event =
    Call jsval this_ref "jsval list"
  | Emit nat string "jsval list"
  | Handler nat int "jsval list"

record world =
  tasks :: "nat \<Rightarrow> Task"
  trace :: "event list"
  console :: "jsval list list"

definition emit :: "nat \<Rightarrow> string \<Rightarrow> jsval list \<Rightarrow> world \<Rightarrow> world" where
  "emit tid name xs w = w\<lparr>trace := trace w @ [Emit tid name xs]\<rparr>"

definition call_fn :: "jsval \<Rightarrow> this_ref \<Rightarrow> jsval list \<Rightarrow> world \<Rightarrow> world" where
  "call_fn f this xs w = w\<lparr>trace := trace w @ [Call f this xs]\<rparr>"

text \<open>\<^verbatim>\<open>if(this._debug) console.log(...)\<close>.\<close>

definition debug_log :: "Step \<Rightarrow> jsval list \<Rightarrow> world \<Rightarrow> world" where
  "debug_log s xs w = (if debug s then w\<lparr>console := console w @ [xs]\<rparr> else w)"

text \<open>The argument lists of the three \<^verbatim>\<open>console.log\<close> calls.\<close>

definition done_message :: "Step \<Rightarrow> jsval list" where
  "done_message s = [Str ''Step `%s` has done and start to run next step.'', Str (stepName s)]"

definition jump_message :: "Step \<Rightarrow> jsval list" where
  "jump_message target = [Str ''Jump step to %s.'', Str (stepName target)]"

definition end_message :: "Task \<Rightarrow> Step \<Rightarrow> jsval list" where
  "end_message t s =
     [Str ''Task `%s` has ended in the step `%s`.'', Str (taskName t), Str (stepName s)]"

subsection \<open>The two task methods the steps call\<close>

text \<open>
  Modelled from the spec: \<^verbatim>\<open>task._getStep\<close> is defined in \<^verbatim>\<open>Task.js\<close>, which is not among
  the sources. The spec's \<^verbatim>\<open>resolveStep(ref)\<close>: the reference is a step name (an exact match
  against \<^verbatim>\<open>stepName\<close>) or an absolute index; it fails by returning a not-found sentinel and
  never clamps.
\<close>

definition getStep :: "Task \<Rightarrow> jsval \<Rightarrow> Step option" where
  "getStep t ref =
     (case ref of
        Str nm \<Rightarrow> find (\<lambda>s. stepName s = nm) (steps t)
      | Num n \<Rightarrow> (if 0 \<le> n \<and> n < int (length (steps t)) then Some (steps t ! nat n) else None)
      | _ \<Rightarrow> None)"

text \<open>
  Modelled from the spec: \<^verbatim>\<open>task._run\<close> is defined in \<^verbatim>\<open>Task.js\<close>, which is not among the
  sources. The spec's \<^verbatim>\<open>runFrom(index, ...args)\<close>: sets the current index to \<open>index\<close> and
  invokes the handler of the step at that index with the arguments; an index outside
  \<open>0 \<le> index < len(steps)\<close> is a fatal error.
\<close>

definition task_run :: "nat \<Rightarrow> int \<Rightarrow> jsval list \<Rightarrow> world \<Rightarrow> (exn + jsval) \<times> world" where
  "task_run tid i xs w =
     (let t = tasks w tid in
      if 0 \<le> i \<and> i < int (length (steps t))
      then (Inr Undefined,
            w\<lparr>tasks := (tasks w)(tid := t\<lparr>currIndex := i\<rparr>),
              trace := trace w @ [Handler tid i xs]\<rparr>)
      else (Inl (Error ''step index out of range''), w))"

section \<open>The methods of a step\<close>

text \<open>\<^verbatim>\<open>_proto.end\<close>: \<^verbatim>\<open>this._task.emit('done', err || null)\<close>.\<close>

definition step_end :: "Step \<Rightarrow> jsval list \<Rightarrow> world \<Rightarrow> (exn + jsval) \<times> world" where
  "step_end s xs w =
     (let err = arg xs 0;
          w1 = debug_log s (end_message (tasks w (task s)) s) w
      in (Inr Undefined, emit (task s) ''done'' [if truthy err then err else Null] w1))"

text \<open>The inner function \<^verbatim>\<open>targetStep\<close> of \<^verbatim>\<open>jump\<close>.\<close>

definition targetStep :: "Task \<Rightarrow> jsval \<Rightarrow> Step option" where
  "targetStep t step =
     (case step of
        Str nm \<Rightarrow> getStep t step
      | Num n \<Rightarrow> getStep t (Num (if n < 0 then currIndex t + n else n))
      | _ \<Rightarrow> None)"

text \<open>\<^verbatim>\<open>_proto.jump\<close>, on its argument list.\<close>

definition step_jump :: "Step \<Rightarrow> jsval list \<Rightarrow> world \<Rightarrow> (exn + jsval) \<times> world" where
  "step_jump s xs w =
     (let step = arg xs 0 in
      if step = Undefined
      then (Inl (Error ''You must access the step you wish to jump to.''), w)
      else
        let t = tasks w (task s); currIndex = currIndex t in
        case targetStep t step of
          None \<Rightarrow> (Inl (Error ''The target step will jump to was not exists.''), w)
        | Some target \<Rightarrow>
            let targetIndex = index target in
            if targetIndex = currIndex then (Inr Undefined, w)
            else task_run (task s) targetIndex (tl xs)
                   (debug_log s (jump_message target) w))"

text \<open>\<^verbatim>\<open>_proto.next\<close>.\<close>

definition step_next :: "Step \<Rightarrow> jsval list \<Rightarrow> world \<Rightarrow> (exn + jsval) \<times> world" where
  "step_next s xs w =
     (let t = tasks w (task s); curIndex = currIndex t in
      if curIndex + 1 < int (length (steps t))
      then step_jump s (Num (curIndex + 1) # xs) w
      else step_end s [] w)"

text \<open>
  \<^verbatim>\<open>_proto.done\<close>, on its argument list. \<^verbatim>\<open>args.shift()\<close> on an empty list gives
  \<^verbatim>\<open>undefined\<close>. The continuation is \<open>Some f\<close> for a function taken from the arguments and
  \<open>None\<close> for \<^verbatim>\<open>this.next\<close>.
\<close>

definition step_done :: "Step \<Rightarrow> jsval list \<Rightarrow> world \<Rightarrow> (exn + jsval) \<times> world" where
  "step_done s xs w =
     (let err0 = arg xs 0; args = tl xs;
          err = (if err0 = Undefined then Null else err0);
          callback = (if isFunction (arg args 0) then Some (arg args 0) else None);
          args = (if isFunction (arg args 0) then tl args else args)
      in if truthy err then step_end s [err] w
         else
           let w1 = debug_log s (done_message s) w
           in case callback of
                Some f \<Rightarrow> (Inr Undefined, call_fn f (This_step s) args w1)
              | None \<Rightarrow> step_next s args w1)"

text \<open>
  \<^verbatim>\<open>_proto.fulfill\<close>. \<^verbatim>\<open>forEach\<close> calls its function with the element, its position and
  the array; the function is \<^verbatim>\<open>task._result\<close> bound to the task.
\<close>

definition step_fulfill :: "Step \<Rightarrow> jsval list \<Rightarrow> world \<Rightarrow> (exn + jsval) \<times> world" where
  "step_fulfill s xs w =
     (let fn = task_result (tasks w (task s)) in
      if \<not> isFunction fn then (Inl (TypeError ''fn.bind is not a function''), w)
      else (Inr Undefined,
            foldl (\<lambda>w' (i, v). call_fn fn (This_task (task s)) [v, Num (int i), Arr (map Some xs)] w')
              w (enumerate 0 xs)))"

text \<open>
  \<^verbatim>\<open>_proto.vars\<close>, on its argument list. \<open>key_of\<close> is the conversion of a value to the
  property key that \<^verbatim>\<open>_variables[key]\<close> makes; a slot never written reads as
  \<^verbatim>\<open>undefined\<close>.
\<close>

definition step_vars :: "(jsval \<Rightarrow> string) \<Rightarrow> Step \<Rightarrow> jsval list \<Rightarrow> world \<Rightarrow> jsval \<times> world" where
  "step_vars key_of s xs w =
     (let len = length xs; t = tasks w (task s); key = key_of (arg xs 0); value = arg xs 1 in
      if len = 1 then (case variables t key of None \<Rightarrow> Undefined | Some v \<Rightarrow> v, w)
      else if len = 2
      then (value, w\<lparr>tasks := (tasks w)(task s := t\<lparr>variables := (variables t)(key \<mapsto> value)\<rparr>)\<rparr>)
      else (Null, w))"

section \<open>parallel\<close>

text \<open>
  The variables \<^verbatim>\<open>result\<close> and \<^verbatim>\<open>completed\<close> that the closure \<^verbatim>\<open>done\<close> of one call of
  \<^verbatim>\<open>parallel\<close> updates, and what the closure captures and never changes after the dispatch:
  \<^verbatim>\<open>root\<close>, \<^verbatim>\<open>arr.length\<close> and \<^verbatim>\<open>callback\<close> (\<open>None\<close> stands for \<^verbatim>\<open>this.done\<close>).
\<close>

record par_state =
  result :: "jsval option list"
  completed :: nat

record par_closure =
  root :: Step
  arr_length :: nat
  callback :: "jsval option"

definition par_init :: par_state where
  "par_init = \<lparr>result = [], completed = 0\<rparr>"

text \<open>
  The closure \<^verbatim>\<open>done(n, err, r)\<close>: \<open>xs\<close> are the arguments a branch passes to its bound
  handler. The second component is the call of \<^verbatim>\<open>callback\<close> that this run of the closure
  makes, as the argument list of the call, or \<open>None\<close> when it makes none. The array in the
  argument list is \<^verbatim>\<open>result\<close> as it is at the time of the call.
\<close>

definition done_handler :: "nat \<Rightarrow> nat \<Rightarrow> jsval list \<Rightarrow> par_state \<Rightarrow> par_state \<times> jsval list option" where
  "done_handler len n xs st =
     (let err = arg xs 0; r = arg xs 1 in
      if truthy err then (st, Some [err])
      else
        let st' = \<lparr>result = array_set (result st) n r, completed = completed st + 1\<rparr> in
        if completed st' \<ge> len then (st', Some [Null, Arr (result st')]) else (st', None))"

text \<open>The calls of \<^verbatim>\<open>callback\<close>, in order, made while the branches complete in the order \<open>evs\<close>.\<close>

fun callback_calls :: "nat \<Rightarrow> (nat \<times> jsval list) list \<Rightarrow> par_state \<Rightarrow> jsval list list" where
  "callback_calls len [] st = []"
| "callback_calls len ((n, xs) # evs) st =
     (case done_handler len n xs st of
        (st', None) \<Rightarrow> callback_calls len evs st'
      | (st', Some c) \<Rightarrow> c # callback_calls len evs st')"

text \<open>\<^verbatim>\<open>callback.call(this, ...)\<close> inside the closure, where \<^verbatim>\<open>this\<close> is bound to \<^verbatim>\<open>root\<close>.\<close>

definition invoke_callback :: "par_closure \<Rightarrow> jsval list \<Rightarrow> world \<Rightarrow> (exn + jsval) \<times> world" where
  "invoke_callback c xs w =
     (case callback c of
        Some f \<Rightarrow> (Inr Undefined, call_fn f (This_step (root c)) xs w)
      | None \<Rightarrow> step_done (root c) xs w)"

text \<open>One run of the bound handler \<^verbatim>\<open>done.bind(root, n)\<close> in the world.\<close>

definition par_done ::
  "par_closure \<Rightarrow> nat \<Rightarrow> jsval list \<Rightarrow> par_state \<times> world \<Rightarrow> (exn + jsval) \<times> par_state \<times> world" where
  "par_done c n xs sw =
     (case done_handler (arr_length c) n xs (fst sw) of
        (st', None) \<Rightarrow> (Inr Undefined, st', snd sw)
      | (st', Some a) \<Rightarrow> (case invoke_callback c a (snd sw) of (res, w') \<Rightarrow> (res, st', w')))"

text \<open>
  The branches complete in the order \<open>evs\<close>; an exception of the callback goes to the branch
  that ran the handler, and the later branches still run theirs. A branch may run its handler
  while \<^verbatim>\<open>parallel\<close> is still dispatching: \<^verbatim>\<open>callback\<close> and \<^verbatim>\<open>arr.length\<close> are fixed
  before the first branch is called and only the handlers touch \<^verbatim>\<open>result\<close> and
  \<^verbatim>\<open>completed\<close>, so the calls of the callback depend on the order of the completions alone.
\<close>

fun deliver ::
  "par_closure \<Rightarrow> (nat \<times> jsval list) list \<Rightarrow> par_state \<times> world \<Rightarrow> par_state \<times> world" where
  "deliver c [] sw = sw"
| "deliver c ((n, xs) # evs) sw = deliver c evs (snd (par_done c n xs sw))"

text \<open>The two loops \<^verbatim>\<open>each(arr, ...)\<close> of \<^verbatim>\<open>parallel\<close>, over the elements with their positions.\<close>

fun each_fn :: "(nat \<times> jsval) list \<Rightarrow> world \<Rightarrow> (exn + jsval) \<times> world" where
  "each_fn [] w = (Inr Undefined, w)"
| "each_fn ((i, fn) # rest) w =
     (if \<not> isFunction fn
      then (Inl (Error ''Every element should be a function                 as the first one does.''), w)
      else each_fn rest (call_fn fn This_undefined [Bound_done i] w))"

fun each_iterator :: "jsval \<Rightarrow> (nat \<times> jsval) list \<Rightarrow> world \<Rightarrow> (exn + jsval) \<times> world" where
  "each_iterator iterator [] w = (Inr Undefined, w)"
| "each_iterator iterator ((i, a) # rest) w =
     (if \<not> isFunction iterator then (Inl (TypeError ''iterator is not a function''), w)
      else each_iterator iterator rest (call_fn iterator This_undefined [a, Bound_done i] w))"

text \<open>
  \<^verbatim>\<open>_proto.parallel\<close>: \<open>arr\<close> is the array of items and \<open>args\<close> the arguments after it
  (\<^verbatim>\<open>util.slice(arguments, 1)\<close>). The result carries the closure whose handlers the branches
  hold.
\<close>

definition step_parallel ::
  "Step \<Rightarrow> jsval list \<Rightarrow> jsval list \<Rightarrow> world \<Rightarrow> (exn + jsval) \<times> par_closure \<times> world" where
  "step_parallel s arr args w =
     (if isFunction (arg arr 0)
      then
        let callback = (if isFunction (arg args 0) then Some (arg args 0) else None);
            (res, w') = each_fn (enumerate 0 arr) w
        in (res, \<lparr>root = s, arr_length = length arr, callback = callback\<rparr>, w')
      else
        let iterator = arg args 0;
            callback = (if isFunction (arg args 1) then Some (arg args 1) else None);
            (res, w') = each_iterator iterator (enumerate 0 arr) w
        in (res, \<lparr>root = s, arr_length = length arr, callback = callback\<rparr>, w'))"

text \<open>
  The handler that a call of the dispatch hands to its branch: the last argument of the call,
  \<^verbatim>\<open>done.bind(root, n)\<close>.
\<close>

fun handler_index :: "event \<Rightarrow> nat option" where
  "handler_index (Call f this xs) =
     (if xs = [] then None else case last xs of Bound_done n \<Rightarrow> Some n | _ \<Rightarrow> None)"
| "handler_index e = None"

text \<open>
  The completions when the branches complete in the order \<open>order\<close>: branch \<open>i\<close> is the one
  called by the \<open>i\<close>-th call of the dispatch \<open>calls\<close>, and it runs the handler that this call
  gave it on the arguments \<open>outs ! i\<close>. A branch that was given no handler cannot complete.
\<close>

fun completions :: "event list \<Rightarrow> jsval list list \<Rightarrow> nat list \<Rightarrow> (nat \<times> jsval list) list" where
  "completions calls outs [] = []"
| "completions calls outs (i # order) =
     (case (if i < length calls then handler_index (calls ! i) else None) of
        None \<Rightarrow> completions calls outs order
      | Some n \<Rightarrow> (n, if i < length outs then outs ! i else []) # completions calls outs order)"

text \<open>The array \<^verbatim>\<open>result\<close> after the writes \<^verbatim>\<open>result[n] = r\<close> of the completions \<open>evs\<close>.\<close>

definition write_all :: "jsval option list \<Rightarrow> (nat \<times> jsval list) list \<Rightarrow> jsval option list" where
  "write_all a evs = foldl (\<lambda>a e. array_set a (fst e) (arg (snd e) 1)) a evs"

section \<open>A task to run the methods on\<close>

text \<open>The task of the end-to-end scenario: the steps \<^verbatim>\<open>load\<close>, \<^verbatim>\<open>process\<close> and \<^verbatim>\<open>save\<close>.\<close>

definition load_step :: Step where
  "load_step = \<lparr>task = 0, stepName = ''load'', stepHandle = Fn ''load'', knownArgs = [],
                 index = 0, debug = False\<rparr>"

definition process_step :: Step where
  "process_step = \<lparr>task = 0, stepName = ''process'', stepHandle = Fn ''process'', knownArgs = [],
                    index = 1, debug = False\<rparr>"

definition save_step :: Step where
  "save_step = \<lparr>task = 0, stepName = ''save'', stepHandle = Fn ''save'', knownArgs = [],
                 index = 2, debug = False\<rparr>"

definition demo_task :: Task where
  "demo_task = \<lparr>taskName = ''demo'', steps = [load_step, process_step, save_step], currIndex = 0,
                 variables = Map.empty, task_result = Fn ''_result''\<rparr>"

text \<open>Every address holds a copy of the task; the steps above belong to the one at address 0.\<close>

definition demo_world :: world where
  "demo_world = \<lparr>tasks = (\<lambda>a. demo_task), trace = [], console = []\<rparr>"

text \<open>The world in which the task at address 0 is at its last step.\<close>

definition last_world :: world where
  "last_world = demo_world\<lparr>tasks := (tasks demo_world)(0 := demo_task\<lparr>currIndex := 2\<rparr>)\<rparr>"

text \<open>A step of the task at address 1.\<close>

definition other_step :: Step where
  "other_step = load_step\<lparr>task := 1\<rparr>"

text \<open>The property key of a string is the string; the examples use no other key.\<close>

fun string_key :: "jsval \<Rightarrow> string" where
  "string_key (Str k) = k"
| "string_key v = ''[object]''"

text \<open>
  \<^verbatim>\<open>parallel([fnA, fnB, fnC])\<close> on the step \<^verbatim>\<open>load\<close>: the closure it makes and the world
  after the dispatch, and what the three branches pass to their handlers.
\<close>

definition three_items :: "jsval list" where
  "three_items = [Fn ''fnA'', Fn ''fnB'', Fn ''fnC'']"

definition three_closure :: par_closure where
  "three_closure = \<lparr>root = load_step, arr_length = 3, callback = None\<rparr>"

definition three_dispatched :: world where
  "three_dispatched = demo_world\<lparr>trace :=
     [Call (Fn ''fnA'') This_undefined [Bound_done 0],
      Call (Fn ''fnB'') This_undefined [Bound_done 1],
      Call (Fn ''fnC'') This_undefined [Bound_done 2]]\<rparr>"

definition three_outs :: "jsval list list" where
  "three_outs = [[Null, Str ''rA''], [Undefined, Str ''rB''], [Null, Str ''rC'']]"

text \<open>
  \<^verbatim>\<open>parallel([fnA, fnB], cb)\<close> on the step \<^verbatim>\<open>load\<close>: the closure it makes and the world
  after the dispatch; the branches of which the first reports an error and the second a result;
  and the completions in which both report an error.
\<close>

definition two_items :: "jsval list" where
  "two_items = [Fn ''fnA'', Fn ''fnB'']"

definition two_closure :: par_closure where
  "two_closure = \<lparr>root = load_step, arr_length = 2, callback = Some (Fn ''cb'')\<rparr>"

definition two_dispatched :: world where
  "two_dispatched = demo_world\<lparr>trace :=
     [Call (Fn ''fnA'') This_undefined [Bound_done 0],
      Call (Fn ''fnB'') This_undefined [Bound_done 1]]\<rparr>"

definition first_fails :: "jsval list list" where
  "first_fails = [[Obj ''errA''], [Null, Str ''rB'']]"

definition both_fail :: "(nat \<times> jsval list) list" where
  "both_fail = [(0, [Obj ''errA'']), (1, [Obj ''errB''])]"

text \<open>
  \<^verbatim>\<open>parallel(['a.js', 'b.js'], readFile, cb)\<close> on the step \<^verbatim>\<open>load\<close>: the closure it makes
  and the world after the dispatch, and what the two branches pass to their handlers.
\<close>

definition file_items :: "jsval list" where
  "file_items = [Str ''a.js'', Str ''b.js'']"

definition file_closure :: par_closure where
  "file_closure = \<lparr>root = load_step, arr_length = 2, callback = Some (Fn ''cb'')\<rparr>"

definition file_dispatched :: world where
  "file_dispatched = demo_world\<lparr>trace :=
     [Call (Fn ''readFile'') This_undefined [Str ''a.js'', Bound_done 0],
      Call (Fn ''readFile'') This_undefined [Str ''b.js'', Bound_done 1]]\<rparr>"

definition file_outs :: "jsval list list" where
  "file_outs = [[Null, Str ''A''], [Null, Str ''B'']]"

text \<open>The closure that \<^verbatim>\<open>parallel([], it, cb)\<close> makes on the step \<^verbatim>\<open>load\<close>.\<close>

definition empty_closure :: par_closure where
  "empty_closure = \<lparr>root = load_step, arr_length = 0, callback = Some (Fn ''cb'')\<rparr>"

lemmas demo_defs =
  load_step_def process_step_def save_step_def demo_task_def demo_world_def last_world_def
  other_step_def three_items_def three_closure_def three_dispatched_def three_outs_def
  two_items_def two_closure_def two_dispatched_def first_fails_def both_fail_def
  file_items_def file_closure_def file_dispatched_def file_outs_def empty_closure_def

lemmas parallel_defs =
  step_parallel_def par_init_def done_handler_def array_set_def par_done_def invoke_callback_def
  call_fn_def arg_def Let_def

section \<open>Auxiliary facts\<close>

lemma tasks_debug_log [simp]: "tasks (debug_log s m w) = tasks w"
  by (simp add: debug_log_def)

lemma trace_debug_log [simp]: "trace (debug_log s m w) = trace w"
  by (simp add: debug_log_def)

lemma debug_log_off [simp]: "\<not> debug s \<Longrightarrow> debug_log s m w = w"
  by (simp add: debug_log_def)

lemma foldl_call_fn:
  "foldl (\<lambda>w' (i, v). call_fn f th (g i v) w') w ivs
     = w\<lparr>trace := trace w @ map (\<lambda>(i, v). Call f th (g i v)) ivs\<rparr>"
  by (induction ivs arbitrary: w) (auto simp: call_fn_def)

section \<open>done\<close>

text \<open>
  C2. A call \<^verbatim>\<open>done(err, ...rest)\<close> with a truthy \<open>err\<close> is the call \<^verbatim>\<open>end(err)\<close>: the
  task's \<^verbatim>\<open>done\<close> event is emitted with \<open>err\<close>, the tasks are left as they were, and nothing
  else is added to the trace, so a function that follows \<open>err\<close> in the arguments is dropped and
  not called.
\<close>

theorem done_error_ends_task:
  assumes "truthy err"
  shows "step_done s (err # rest) w = step_end s [err] w
       \<and> fst (step_done s (err # rest) w) = Inr Undefined
       \<and> tasks (snd (step_done s (err # rest) w)) = tasks w
       \<and> trace (snd (step_done s (err # rest) w)) = trace w @ [Emit (task s) ''done'' [err]]"
  using assms
  by (cases err) (simp_all add: step_done_def step_end_def arg_def emit_def Let_def)

theorem done_error_ends_task_witness:
  "truthy (Obj ''x'')
   \<and> step_done load_step [Obj ''x'', Fn ''someCallback''] demo_world
       = step_end load_step [Obj ''x''] demo_world
   \<and> trace (snd (step_done load_step [Obj ''x'', Fn ''someCallback''] demo_world))
       = [Emit 0 ''done'' [Obj ''x'']]"
  using done_error_ends_task [of "Obj ''x''" load_step "[Fn ''someCallback'']" demo_world]
  by (simp add: demo_defs step_done_def step_end_def arg_def emit_def Let_def)

text \<open>
  C6. A call \<^verbatim>\<open>done(err, ...rest)\<close> with a falsy \<open>err\<close> (\<^verbatim>\<open>undefined\<close> among them, also
  when no argument is given at all): when the first element of \<open>rest\<close> is a function, that
  function is called with the step as \<^verbatim>\<open>this\<close> and the arguments after it, the tasks are left
  as they were and the call is the one event added to the trace (no \<^verbatim>\<open>done\<close> event);
  otherwise the step's \<^verbatim>\<open>next\<close> is run on all of \<open>rest\<close>. So
  \<^verbatim>\<open>done(undefined, cb, a, b)\<close> calls \<^verbatim>\<open>cb\<close> on the step with \<open>(a, b)\<close>.
\<close>

theorem done_without_error_continues:
  assumes "\<not> truthy err"
  shows "(isFunction (arg rest 0) \<longrightarrow>
            step_done s (err # rest) w
              = (Inr Undefined,
                 call_fn (arg rest 0) (This_step s) (tl rest) (debug_log s (done_message s) w))
          \<and> tasks (snd (step_done s (err # rest) w)) = tasks w
          \<and> trace (snd (step_done s (err # rest) w))
              = trace w @ [Call (arg rest 0) (This_step s) (tl rest)])
       \<and> (\<not> isFunction (arg rest 0) \<longrightarrow>
            step_done s (err # rest) w = step_next s rest (debug_log s (done_message s) w))
       \<and> step_done s [] w = step_next s [] (debug_log s (done_message s) w)
       \<and> step_done s [Undefined, Fn cb, a, b] w
           = (Inr Undefined, call_fn (Fn cb) (This_step s) [a, b] (debug_log s (done_message s) w))"
  using assms
  by (cases err) (simp_all add: step_done_def arg_def call_fn_def Let_def)

theorem done_without_error_continues_witness:
  "\<not> truthy Undefined
   \<and> isFunction (arg [Fn ''cb'', Num 1, Num 2] 0)
   \<and> step_done load_step [Undefined, Fn ''cb'', Num 1, Num 2] demo_world
       = (Inr Undefined, demo_world\<lparr>trace := [Call (Fn ''cb'') (This_step load_step) [Num 1, Num 2]]\<rparr>)
   \<and> \<not> truthy Null
   \<and> \<not> isFunction (arg [Num 1, Num 2] 0)
   \<and> step_done load_step [Null, Num 1, Num 2] demo_world
       = step_next load_step [Num 1, Num 2] demo_world"
  using done_without_error_continues [of Undefined "[Fn ''cb'', Num 1, Num 2]" load_step demo_world]
    done_without_error_continues [of Null "[Num 1, Num 2]" load_step demo_world]
  by (simp add: demo_defs step_done_def arg_def call_fn_def Let_def)

section \<open>next\<close>

text \<open>
  C7. A call \<^verbatim>\<open>next(...args)\<close> at current index \<open>i\<close>: when \<open>i + 1\<close> is less than the number
  of steps it is the call \<^verbatim>\<open>jump(i + 1, ...args)\<close>; otherwise it is the call \<^verbatim>\<open>end()\<close>,
  which emits the task's \<^verbatim>\<open>done\<close> event with \<^verbatim>\<open>null\<close> and leaves the tasks as they were.
\<close>

theorem next_jumps_or_ends:
  "(currIndex (tasks w (task s)) + 1 < int (length (steps (tasks w (task s)))) \<longrightarrow>
      step_next s xs w = step_jump s (Num (currIndex (tasks w (task s)) + 1) # xs) w)
   \<and> (\<not> currIndex (tasks w (task s)) + 1 < int (length (steps (tasks w (task s)))) \<longrightarrow>
      step_next s xs w = step_end s [] w
      \<and> fst (step_next s xs w) = Inr Undefined
      \<and> tasks (snd (step_next s xs w)) = tasks w
      \<and> trace (snd (step_next s xs w)) = trace w @ [Emit (task s) ''done'' [Null]])"
  by (simp add: step_next_def step_end_def arg_def emit_def Let_def)

theorem next_jumps_or_ends_witness:
  "currIndex (tasks demo_world (task load_step)) + 1
     < int (length (steps (tasks demo_world (task load_step))))
   \<and> step_next load_step [Num 7] demo_world = step_jump load_step [Num 1, Num 7] demo_world
   \<and> step_next load_step [Num 7] demo_world
       = (Inr Undefined,
          demo_world\<lparr>tasks := (tasks demo_world)(0 := demo_task\<lparr>currIndex := 1\<rparr>),
                      trace := [Handler 0 1 [Num 7]]\<rparr>)
   \<and> \<not> currIndex (tasks last_world (task save_step)) + 1
       < int (length (steps (tasks last_world (task save_step))))
   \<and> step_next save_step [Num 7] last_world = step_end save_step [] last_world
   \<and> trace (snd (step_next save_step [Num 7] last_world)) = [Emit 0 ''done'' [Null]]"
  using next_jumps_or_ends [of demo_world load_step "[Num 7]"]
    next_jumps_or_ends [of last_world save_step "[Num 7]"]
  by (simp add: demo_defs step_next_def step_end_def step_jump_def targetStep_def getStep_def
      task_run_def arg_def emit_def Let_def)

section \<open>jump\<close>

lemma targetStep_not_found:
  assumes "(\<exists>nm. ref = Str nm \<and> nm \<notin> stepName ` set (steps t))
         \<or> (\<exists>n. ref = Num n \<and> int (length (steps t)) \<le> n)
         \<or> ((\<forall>nm. ref \<noteq> Str nm) \<and> (\<forall>n. ref \<noteq> Num n))"
  shows "targetStep t ref = None"
  using assms
  by (cases ref) (auto simp: targetStep_def getStep_def find_None_iff)

text \<open>
  C4. A call \<^verbatim>\<open>jump(ref, ...args)\<close> throws an \<^verbatim>\<open>Error\<close> and leaves the world, and with it
  the current index of the task, as it was when \<open>ref\<close> is \<^verbatim>\<open>undefined\<close> (also when no
  argument is given) or resolves to no step: a name that no step has, a number that is at least
  the number of steps, a value that is neither a string nor a number, or any other reference
  for which the resolution finds nothing.
\<close>

theorem jump_unresolved_throws:
  assumes "ref = Undefined
         \<or> (\<exists>nm. ref = Str nm \<and> nm \<notin> stepName ` set (steps (tasks w (task s))))
         \<or> (\<exists>n. ref = Num n \<and> int (length (steps (tasks w (task s)))) \<le> n)
         \<or> ((\<forall>nm. ref \<noteq> Str nm) \<and> (\<forall>n. ref \<noteq> Num n))
         \<or> targetStep (tasks w (task s)) ref = None"
  shows "step_jump s (ref # xs) w
           = (Inl (Error (if ref = Undefined
                          then ''You must access the step you wish to jump to.''
                          else ''The target step will jump to was not exists.'')), w)
       \<and> currIndex (tasks (snd (step_jump s (ref # xs) w)) (task s))
           = currIndex (tasks w (task s))
       \<and> step_jump s [] w
           = (Inl (Error ''You must access the step you wish to jump to.''), w)"
proof -
  have none: "targetStep (tasks w (task s)) ref = None" if "ref \<noteq> Undefined"
  proof (cases "targetStep (tasks w (task s)) ref = None")
    case True
    then show ?thesis .
  next
    case False
    with assms that show ?thesis
      by (intro targetStep_not_found) simp
  qed
  show ?thesis
  proof (cases "ref = Undefined")
    case True
    then show ?thesis by (simp add: step_jump_def arg_def)
  next
    case False
    with none show ?thesis by (simp add: step_jump_def arg_def Let_def)
  qed
qed

theorem jump_unresolved_throws_witness:
  "Str ''publish'' = Str ''publish''
   \<and> ''publish'' \<notin> stepName ` set (steps (tasks demo_world (task load_step)))
   \<and> step_jump load_step [Str ''publish'', Num 7] demo_world
       = (Inl (Error ''The target step will jump to was not exists.''), demo_world)
   \<and> int (length (steps (tasks demo_world (task load_step)))) \<le> 3
   \<and> step_jump load_step [Num 3, Num 7] demo_world
       = (Inl (Error ''The target step will jump to was not exists.''), demo_world)
   \<and> step_jump load_step [Bool True] demo_world
       = (Inl (Error ''The target step will jump to was not exists.''), demo_world)
   \<and> step_jump load_step [Undefined, Num 7] demo_world
       = (Inl (Error ''You must access the step you wish to jump to.''), demo_world)"
  using jump_unresolved_throws [of "Str ''publish''" demo_world load_step "[Num 7]"]
    jump_unresolved_throws [of "Num 3" demo_world load_step "[Num 7]"]
    jump_unresolved_throws [of "Bool True" demo_world load_step "[]"]
    jump_unresolved_throws [of Undefined demo_world load_step "[Num 7]"]
  by (simp add: demo_defs step_jump_def targetStep_def getStep_def arg_def Let_def)

text \<open>
  C5. At current index \<open>i\<close>, a negative number \<open>n\<close> is resolved at the absolute index
  \<open>i + n\<close>: when a step stands there and its \<^verbatim>\<open>_index\<close> is its position, the jump runs the
  task from \<open>i + n\<close> with the remaining arguments. And whenever the step that a reference
  resolves to has the current index as its \<^verbatim>\<open>_index\<close>, the jump returns with the world as
  it was: no handler is called, nothing is logged and the task is unchanged.
\<close>

theorem jump_relative_and_self:
  assumes "t = tasks w (task s)" and "i = currIndex t"
  shows "(n < 0 \<longrightarrow> targetStep t (Num n) = getStep t (Num (i + n)))
       \<and> (n < 0 \<and> 0 \<le> i + n \<and> i + n < int (length (steps t))
            \<and> index (steps t ! nat (i + n)) = i + n \<longrightarrow>
          targetStep t (Num n) = Some (steps t ! nat (i + n))
          \<and> step_jump s (Num n # xs) w
              = task_run (task s) (i + n) xs
                  (debug_log s (jump_message (steps t ! nat (i + n))) w))
       \<and> (targetStep t ref = Some target \<and> index target = i \<longrightarrow>
          step_jump s (ref # xs) w = (Inr Undefined, w))"
proof -
  have rel: "n < 0 \<Longrightarrow> targetStep t (Num n) = getStep t (Num (i + n))"
    using assms by (simp add: targetStep_def)
  have run: "step_jump s (Num n # xs) w
              = task_run (task s) (i + n) xs
                  (debug_log s (jump_message (steps t ! nat (i + n))) w)"
    if "n < 0" "0 \<le> i + n" "i + n < int (length (steps t))"
      "index (steps t ! nat (i + n)) = i + n"
  proof -
    have "targetStep t (Num n) = Some (steps t ! nat (i + n))"
      using that rel by (simp add: getStep_def)
    then show ?thesis
      using that assms by (simp add: step_jump_def arg_def Let_def)
  qed
  have self: "step_jump s (ref # xs) w = (Inr Undefined, w)"
    if "targetStep t ref = Some target" "index target = i"
  proof -
    from that have "ref \<noteq> Undefined" by (auto simp: targetStep_def)
    then show ?thesis
      using that assms by (simp add: step_jump_def arg_def Let_def)
  qed
  show ?thesis
    using rel run self by (auto simp: getStep_def)
qed

theorem jump_relative_and_self_witness:
  "tasks last_world (task save_step) = demo_task\<lparr>currIndex := 2\<rparr>
   \<and> currIndex (demo_task\<lparr>currIndex := 2\<rparr>) = 2
   \<and> (-2 :: int) < 0 \<and> (0 :: int) \<le> 2 + (-2)
   \<and> 2 + (-2) < int (length (steps (demo_task\<lparr>currIndex := 2\<rparr>)))
   \<and> index (steps (demo_task\<lparr>currIndex := 2\<rparr>) ! nat (2 + (-2))) = 2 + (-2)
   \<and> targetStep (demo_task\<lparr>currIndex := 2\<rparr>) (Num (-2)) = Some load_step
   \<and> step_jump save_step [Num (-2), Num 7] last_world
       = (Inr Undefined,
          last_world\<lparr>tasks := (tasks last_world)(0 := demo_task\<lparr>currIndex := 0\<rparr>),
                      trace := [Handler 0 0 [Num 7]]\<rparr>)
   \<and> targetStep (demo_task\<lparr>currIndex := 2\<rparr>) (Str ''save'') = Some save_step
   \<and> index save_step = 2
   \<and> step_jump save_step [Str ''save'', Num 7] last_world = (Inr Undefined, last_world)"
  using jump_relative_and_self
    [where t = "demo_task\<lparr>currIndex := 2\<rparr>" and w = last_world and s = save_step and i = 2
       and n = "-2" and ref = "Str ''save''" and target = save_step and xs = "[Num 7]"]
  by (simp add: demo_defs step_jump_def targetStep_def getStep_def task_run_def arg_def Let_def)

section \<open>fulfill\<close>

text \<open>
  C8. A call \<^verbatim>\<open>fulfill(v1, ..., vn)\<close> calls the task's function \<^verbatim>\<open>_result\<close> once for each
  value, in the order of the arguments, with the task as \<^verbatim>\<open>this\<close> and the value as the
  argument (followed, as \<^verbatim>\<open>forEach\<close> does, by the position of the value and the array of
  all values). These calls are all it does: the tasks, and so the current index, are as they
  were, and neither a handler is run nor a \<^verbatim>\<open>done\<close> event emitted.
\<close>

theorem fulfill_calls_accumulator:
  assumes "isFunction (task_result (tasks w (task s)))"
  shows "step_fulfill s vs w =
           (Inr Undefined,
            w\<lparr>trace := trace w @
                map (\<lambda>(i, v). Call (task_result (tasks w (task s))) (This_task (task s))
                                [v, Num (int i), Arr (map Some vs)])
                  (enumerate 0 vs)\<rparr>)
       \<and> tasks (snd (step_fulfill s vs w)) = tasks w
       \<and> length (trace (snd (step_fulfill s vs w))) = length (trace w) + length vs"
  using assms by (simp add: step_fulfill_def foldl_call_fn)

theorem fulfill_calls_accumulator_witness:
  "isFunction (task_result (tasks demo_world (task save_step)))
   \<and> step_fulfill save_step [Num 1, Num 2] demo_world =
       (Inr Undefined,
        demo_world\<lparr>trace :=
          [Call (Fn ''_result'') (This_task 0) [Num 1, Num 0, Arr [Some (Num 1), Some (Num 2)]],
           Call (Fn ''_result'') (This_task 0) [Num 2, Num 1, Arr [Some (Num 1), Some (Num 2)]]]\<rparr>)"
  using fulfill_calls_accumulator [of demo_world save_step "[Num 1, Num 2]"]
  by (simp add: demo_defs)

section \<open>vars\<close>

text \<open>
  C9. \<^verbatim>\<open>vars(k)\<close> returns what the task's store holds under \<open>k\<close> (\<^verbatim>\<open>undefined\<close> when
  nothing was written there) and changes nothing; \<^verbatim>\<open>vars(k, v)\<close> writes \<open>v\<close> under \<open>k\<close>
  in the store of the step's task and returns \<open>v\<close>; with no argument or more than two it returns
  \<^verbatim>\<open>null\<close> and changes nothing. So after \<^verbatim>\<open>vars(k, v)\<close> on a step, \<^verbatim>\<open>vars(k)\<close> on any
  step of the same task returns \<open>v\<close>, and on a step of another task \<^verbatim>\<open>vars\<close> returns what it
  returned before.
\<close>

theorem vars_reads_and_writes:
  "step_vars key_of s [k] w
     = (case variables (tasks w (task s)) (key_of k) of None \<Rightarrow> Undefined | Some v \<Rightarrow> v, w)
   \<and> step_vars key_of s [k, v] w
       = (v, w\<lparr>tasks := (tasks w)(task s := (tasks w (task s))
                 \<lparr>variables := (variables (tasks w (task s)))(key_of k \<mapsto> v)\<rparr>)\<rparr>)
   \<and> (length xs \<noteq> 1 \<and> length xs \<noteq> 2 \<longrightarrow> step_vars key_of s xs w = (Null, w))
   \<and> (task s' = task s \<longrightarrow>
        fst (step_vars key_of s' [k] (snd (step_vars key_of s [k, v] w))) = v)
   \<and> (task s' \<noteq> task s \<longrightarrow>
        fst (step_vars key_of s' [k'] (snd (step_vars key_of s [k, v] w)))
          = fst (step_vars key_of s' [k'] w))"
  by (simp add: step_vars_def arg_def Let_def)

theorem vars_reads_and_writes_witness:
  "length [Str ''k'', Num 1, Num 2] \<noteq> 1 \<and> length [Str ''k'', Num 1, Num 2] \<noteq> 2
   \<and> step_vars string_key load_step [Str ''k'', Num 1, Num 2] demo_world = (Null, demo_world)
   \<and> task process_step = task load_step
   \<and> fst (step_vars string_key process_step [Str ''k'']
            (snd (step_vars string_key load_step [Str ''k'', Num 1] demo_world))) = Num 1
   \<and> task other_step \<noteq> task load_step
   \<and> fst (step_vars string_key other_step [Str ''k'']
            (snd (step_vars string_key load_step [Str ''k'', Num 1] demo_world))) = Undefined"
  using vars_reads_and_writes
    [where key_of = string_key and s = load_step and k = "Str ''k''" and w = demo_world
       and v = "Num 1" and xs = "[Str ''k'', Num 1, Num 2]" and s' = process_step
       and k' = "Str ''k''"]
    vars_reads_and_writes
    [where key_of = string_key and s = load_step and k = "Str ''k''" and w = demo_world
       and v = "Num 1" and xs = "[Str ''k'', Num 1, Num 2]" and s' = other_step
       and k' = "Str ''k''"]
  by (simp add: demo_defs step_vars_def arg_def Let_def)

section \<open>parallel: when and how the callback is called\<close>

subsection \<open>Writes to the array of results\<close>

lemma write_all_Nil [simp]: "write_all a [] = a"
  by (simp add: write_all_def)

lemma write_all_Cons [simp]:
  "write_all a (e # evs) = write_all (array_set a (fst e) (arg (snd e) 1)) evs"
  by (simp add: write_all_def)

lemma length_array_set: "length (array_set a n r) = max (length a) (Suc n)"
  by (auto simp: array_set_def)

lemma nth_array_set_same: "array_set a n r ! n = Some r"
  by (auto simp: array_set_def nth_append)

lemma nth_array_set_other: "i < length a \<Longrightarrow> i \<noteq> n \<Longrightarrow> array_set a n r ! i = a ! i"
  by (auto simp: array_set_def nth_append)

lemma length_write_all_le:
  "length a \<le> m \<Longrightarrow> \<forall>e\<in>set evs. fst e < m \<Longrightarrow> length (write_all a evs) \<le> m"
  by (induction evs arbitrary: a) (auto simp: length_array_set)

text \<open>A slot written once keeps the value of its branch, whatever is written around it.\<close>

lemma write_all_slot:
  "i \<in> set order \<or> (i < length a \<and> a ! i = Some (arg (outs ! i) 1)) \<Longrightarrow>
   i < length (write_all a (map (\<lambda>j. (j, outs ! j)) order)) \<and>
   write_all a (map (\<lambda>j. (j, outs ! j)) order) ! i = Some (arg (outs ! i) 1)"
proof (induction order arbitrary: a)
  case Nil
  then show ?case by simp
next
  case (Cons j order)
  let ?a = "array_set a j (arg (outs ! j) 1)"
  have "i \<in> set order \<or> (i < length ?a \<and> ?a ! i = Some (arg (outs ! i) 1))"
  proof (cases "i = j")
    case True
    then show ?thesis by (auto simp: length_array_set nth_array_set_same)
  next
    case False
    then show ?thesis using Cons.prems by (auto simp: length_array_set nth_array_set_other)
  qed
  from Cons.IH [OF this] show ?case by simp
qed

lemma write_all_perm:
  assumes "mset order = mset [0..<length outs]"
  shows "write_all [] (map (\<lambda>j. (j, outs ! j)) order) = map (\<lambda>xs. Some (arg xs 1)) outs"
proof (rule nth_equalityI)
  let ?r = "write_all [] (map (\<lambda>j. (j, outs ! j)) order)"
  from assms have so: "set order = {0..<length outs}"
    by (metis mset_eq_setD set_upt)
  have le: "length ?r \<le> length outs"
    by (rule length_write_all_le) (auto simp: so)
  have ge: "length outs \<le> length ?r"
  proof (cases "length outs")
    case 0
    then show ?thesis by simp
  next
    case (Suc m)
    then have "m \<in> set order" by (simp add: so)
    then have "m < length ?r"
      using write_all_slot [of m order "[]" outs] by simp
    then show ?thesis using Suc by simp
  qed
  from le ge show len: "length ?r = length (map (\<lambda>xs. Some (arg xs 1)) outs)"
    by simp
  fix i assume "i < length ?r"
  then have i: "i < length outs" using len by simp
  then have "i \<in> set order" by (simp add: so)
  then show "?r ! i = map (\<lambda>xs. Some (arg xs 1)) outs ! i"
    using write_all_slot [of i order "[]" outs] i by simp
qed

subsection \<open>The calls of the callback\<close>

lemma calls_none:
  "\<forall>e\<in>set evs. \<not> truthy (arg (snd e) 0) \<Longrightarrow> completed st + length evs < len \<Longrightarrow>
   callback_calls len evs st = []"
proof (induction evs arbitrary: st)
  case Nil
  then show ?case by simp
next
  case (Cons e evs)
  obtain n xs where e: "e = (n, xs)" by (cases e)
  let ?st = "\<lparr>result = array_set (result st) n (arg xs 1), completed = Suc (completed st)\<rparr>"
  from Cons.prems have "\<not> truthy (arg xs 0)" and "Suc (completed st) < len"
    by (auto simp: e)
  then show ?case
    using Cons.prems Cons.IH [of ?st] by (simp add: e done_handler_def Let_def)
qed

lemma calls_all_ok:
  "\<forall>e\<in>set evs. \<not> truthy (arg (snd e) 0) \<Longrightarrow> evs \<noteq> [] \<Longrightarrow>
   completed st + length evs = len \<Longrightarrow>
   callback_calls len evs st = [[Null, Arr (write_all (result st) evs)]]"
proof (induction evs arbitrary: st)
  case Nil
  then show ?case by simp
next
  case (Cons e evs)
  obtain n xs where e: "e = (n, xs)" by (cases e)
  let ?st = "\<lparr>result = array_set (result st) n (arg xs 1), completed = Suc (completed st)\<rparr>"
  from Cons.prems have ok: "\<not> truthy (arg xs 0)" by (auto simp: e)
  show ?case
  proof (cases "evs = []")
    case True
    then show ?thesis using ok Cons.prems by (simp add: e done_handler_def Let_def)
  next
    case False
    then have "Suc (completed st) < len" using Cons.prems by (cases evs) auto
    then show ?thesis
      using ok False Cons.prems Cons.IH [of ?st] by (simp add: e done_handler_def Let_def)
  qed
qed

lemma calls_errors_only:
  "completed st + length (filter (\<lambda>e. \<not> truthy (arg (snd e) 0)) evs) < len \<Longrightarrow>
   callback_calls len evs st
     = map (\<lambda>e. [arg (snd e) 0]) (filter (\<lambda>e. truthy (arg (snd e) 0)) evs)"
proof (induction evs arbitrary: st)
  case Nil
  then show ?case by simp
next
  case (Cons e evs)
  obtain n xs where e: "e = (n, xs)" by (cases e)
  show ?case
  proof (cases "truthy (arg xs 0)")
    case True
    then show ?thesis
      using Cons.prems Cons.IH [of st] by (simp add: e done_handler_def Let_def)
  next
    case False
    let ?st = "\<lparr>result = array_set (result st) n (arg xs 1), completed = Suc (completed st)\<rparr>"
    from False Cons.prems have "Suc (completed st) < len" by (simp add: e)
    then show ?thesis
      using False Cons.prems Cons.IH [of ?st] by (simp add: e done_handler_def Let_def)
  qed
qed

text \<open>In the world, the completions do what the calls of the callback do, one after the other.\<close>

lemma deliver_calls:
  "snd (deliver c evs (st, w))
     = foldl (\<lambda>w' a. snd (invoke_callback c a w')) w (callback_calls (arr_length c) evs st)"
proof (induction evs arbitrary: st w)
  case Nil
  then show ?case by simp
next
  case (Cons e evs)
  obtain n xs where e: "e = (n, xs)" by (cases e)
  obtain st' call where h: "done_handler (arr_length c) n xs st = (st', call)"
    by (cases "done_handler (arr_length c) n xs st")
  show ?case
  proof (cases call)
    case None
    then show ?thesis using h Cons.IH [of st' w] by (simp add: e par_done_def)
  next
    case (Some a)
    obtain res w' where i: "invoke_callback c a w = (res, w')"
      by (cases "invoke_callback c a w")
    then show ?thesis using h Some Cons.IH [of st' w'] by (simp add: e par_done_def)
  qed
qed

text \<open>When every branch completes once, as many branches report an error as complete with one.\<close>

lemma perm_filter_length:
  assumes "mset order = mset [0..<length outs]"
  shows "length (filter (\<lambda>i. P (outs ! i)) order) = length (filter P outs)"
proof -
  have "mset (filter (\<lambda>i. P (outs ! i)) order) = mset (filter (\<lambda>i. P (outs ! i)) [0..<length outs])"
    using assms by (metis mset_filter)
  then have "length (filter (\<lambda>i. P (outs ! i)) order)
               = length (filter (\<lambda>i. P (outs ! i)) [0..<length outs])"
    by (metis size_mset)
  also have "\<dots> = length (map (\<lambda>i. outs ! i) (filter (\<lambda>i. P (outs ! i)) [0..<length outs]))"
    by simp
  also have "map (\<lambda>i. outs ! i) (filter (\<lambda>i. P (outs ! i)) [0..<length outs])
               = filter P (map (\<lambda>i. outs ! i) [0..<length outs])"
    by (simp add: filter_map comp_def)
  also have "map (\<lambda>i. outs ! i) [0..<length outs] = outs"
    by (rule map_nth)
  finally show ?thesis .
qed

subsection \<open>The dispatch\<close>

lemma each_fn_trace:
  "each_fn ivs w = (Inr u, w') \<Longrightarrow>
   w' = w\<lparr>trace := trace w @ map (\<lambda>(i, fn). Call fn This_undefined [Bound_done i]) ivs\<rparr>"
proof (induction ivs arbitrary: w)
  case Nil
  then show ?case by simp
next
  case (Cons e ivs)
  obtain i fn where e: "e = (i, fn)" by (cases e)
  from Cons.prems have f: "isFunction fn" by (auto simp: e split: if_splits)
  with Cons.prems have "each_fn ivs (call_fn fn This_undefined [Bound_done i] w) = (Inr u, w')"
    by (simp add: e)
  from Cons.IH [OF this] show ?case by (simp add: e call_fn_def)
qed

lemma each_iterator_trace:
  "each_iterator it ivs w = (Inr u, w') \<Longrightarrow>
   w' = w\<lparr>trace := trace w @ map (\<lambda>(i, a). Call it This_undefined [a, Bound_done i]) ivs\<rparr>"
proof (induction ivs arbitrary: w)
  case Nil
  then show ?case by simp
next
  case (Cons e ivs)
  obtain i a where e: "e = (i, a)" by (cases e)
  from Cons.prems have f: "isFunction it" by (auto simp: e split: if_splits)
  with Cons.prems have "each_iterator it ivs (call_fn it This_undefined [a, Bound_done i] w) = (Inr u, w')"
    by (simp add: e)
  from Cons.IH [OF this] show ?case by (simp add: e call_fn_def)
qed

text \<open>The calls that a dispatch without exception adds to the trace, and the closure it makes.\<close>

lemma step_parallel_dispatch:
  assumes "step_parallel s arr args w = (Inr u, c, w1)"
  shows "drop (length (trace w)) (trace w1)
           = (if isFunction (arg arr 0)
              then map (\<lambda>(i, fn). Call fn This_undefined [Bound_done i]) (enumerate 0 arr)
              else map (\<lambda>(i, a). Call (arg args 0) This_undefined [a, Bound_done i])
                     (enumerate 0 arr))"
    and "root c = s" and "arr_length c = length arr"
    and "callback c
           = (if isFunction (arg arr 0)
              then (if isFunction (arg args 0) then Some (arg args 0) else None)
              else (if isFunction (arg args 1) then Some (arg args 1) else None))"
proof -
  show "root c = s" and "arr_length c = length arr"
    and "callback c
           = (if isFunction (arg arr 0)
              then (if isFunction (arg args 0) then Some (arg args 0) else None)
              else (if isFunction (arg args 1) then Some (arg args 1) else None))"
    using assms by (auto simp: step_parallel_def Let_def split: if_splits prod.splits)
  show "drop (length (trace w)) (trace w1)
           = (if isFunction (arg arr 0)
              then map (\<lambda>(i, fn). Call fn This_undefined [Bound_done i]) (enumerate 0 arr)
              else map (\<lambda>(i, a). Call (arg args 0) This_undefined [a, Bound_done i])
                     (enumerate 0 arr))"
  proof (cases "isFunction (arg arr 0)")
    case True
    with assms have "each_fn (enumerate 0 arr) w = (Inr u, w1)"
      by (auto simp: step_parallel_def Let_def split: prod.splits)
    from each_fn_trace [OF this] show ?thesis using True by simp
  next
    case False
    with assms have "each_iterator (arg args 0) (enumerate 0 arr) w = (Inr u, w1)"
      by (auto simp: step_parallel_def Let_def split: prod.splits)
    from each_iterator_trace [OF this] show ?thesis using False by simp
  qed
qed

text \<open>When the \<open>i\<close>-th call of the dispatch hands out the handler bound to \<open>i\<close>.\<close>

lemma completions_aligned:
  "\<forall>i\<in>set order. i < length calls \<and> i < length outs \<and> handler_index (calls ! i) = Some i \<Longrightarrow>
   completions calls outs order = map (\<lambda>i. (i, outs ! i)) order"
  by (induction order) auto

lemma handler_index_fn:
  "i < length arr \<Longrightarrow>
   handler_index (map (\<lambda>(i, fn). Call fn This_undefined [Bound_done i]) (enumerate 0 arr) ! i)
     = Some i"
  by (simp add: nth_enumerate_eq)

lemma handler_index_iterator:
  "i < length arr \<Longrightarrow>
   handler_index (map (\<lambda>(i, a). Call it This_undefined [a, Bound_done i]) (enumerate 0 arr) ! i)
     = Some i"
  by (simp add: nth_enumerate_eq)

subsection \<open>Every branch completes once\<close>

text \<open>
  Below, \<open>outs ! i\<close> are the arguments \<open>(err, r)\<close> that branch \<open>i\<close> passes to its handler,
  and \<open>order\<close> is the order in which the branches complete: a permutation of the positions of
  the items.
\<close>

text \<open>
  C3, for a non-empty array of items. \<^verbatim>\<open>parallel\<close> calls branch \<open>i\<close> (the item at position
  \<open>i\<close>, or the iterator on it) with the handler bound to \<open>i\<close>. When every branch then runs
  the handler it was given once and without an error, in whatever order, the callback is called
  once, with \<^verbatim>\<open>null\<close> and the array that holds the result of branch \<open>i\<close> at position \<open>i\<close>;
  as long as fewer branches than there are items have completed it is not called. The callback
  is the function the caller gave after the items (after the iterator, in the iterator shape)
  and is called on the step; when the caller gave none it is the step's \<^verbatim>\<open>done\<close>.
\<close>

theorem parallel_results_index_aligned:
  assumes "arr \<noteq> []" and "length outs = length arr"
    and "mset order = mset [0..<length arr]"
    and "\<forall>xs\<in>set outs. \<not> truthy (arg xs 0)"
    and "step_parallel s arr args w = (Inr Undefined, c, w1)"
    and "evs = completions (drop (length (trace w)) (trace w1)) outs order"
    and "results = map (\<lambda>xs. Some (arg xs 1)) outs"
  shows "drop (length (trace w)) (trace w1)
           = (if isFunction (arg arr 0)
              then map (\<lambda>(i, fn). Call fn This_undefined [Bound_done i]) (enumerate 0 arr)
              else map (\<lambda>(i, a). Call (arg args 0) This_undefined [a, Bound_done i])
                     (enumerate 0 arr))
       \<and> evs = map (\<lambda>i. (i, outs ! i)) order
       \<and> root c = s \<and> arr_length c = length arr
       \<and> callback c
           = (if isFunction (arg arr 0)
              then (if isFunction (arg args 0) then Some (arg args 0) else None)
              else (if isFunction (arg args 1) then Some (arg args 1) else None))
       \<and> callback_calls (arr_length c) evs par_init = [[Null, Arr results]]
       \<and> (\<forall>k<length arr. callback_calls (arr_length c) (take k evs) par_init = [])
       \<and> (\<forall>f. callback c = Some f \<longrightarrow>
             snd (deliver c evs (par_init, w1))
               = w1\<lparr>trace := trace w1 @ [Call f (This_step s) [Null, Arr results]]\<rparr>)
       \<and> (callback c = None \<longrightarrow>
             snd (deliver c evs (par_init, w1)) = snd (step_done s [Null, Arr results] w1))"
proof -
  note d = step_parallel_dispatch [OF assms(5)]
  have len: "arr_length c = length arr" by (rule d(3))
  have lo: "length order = length arr"
    using assms(3) by (metis length_upt mset_eq_length minus_nat.diff_0)
  have so: "set order = {0..<length outs}"
    using assms(2,3) by (metis mset_eq_setD set_upt)
  have evs: "evs = map (\<lambda>i. (i, outs ! i)) order"
    unfolding assms(6)
  proof (rule completions_aligned, rule ballI)
    fix i assume "i \<in> set order"
    then have i: "i < length arr" using so assms(2) by simp
    then show "i < length (drop (length (trace w)) (trace w1)) \<and> i < length outs
        \<and> handler_index (drop (length (trace w)) (trace w1) ! i) = Some i"
      using assms(2) handler_index_fn [OF i] handler_index_iterator [OF i, of "arg args 0"]
      by (simp add: d(1))
  qed
  have ok: "\<forall>e\<in>set evs. \<not> truthy (arg (snd e) 0)"
    using assms(4) so by (auto simp: evs)
  have "evs \<noteq> []" using lo assms(1) by (auto simp: evs)
  then have "callback_calls (length arr) evs par_init
               = [[Null, Arr (write_all (result par_init) evs)]]"
    using ok lo by (intro calls_all_ok) (simp_all add: par_init_def evs)
  moreover have "write_all (result par_init) evs = results"
    using write_all_perm [of order outs] assms(2,3) by (simp add: par_init_def evs assms(7))
  ultimately have all: "callback_calls (arr_length c) evs par_init = [[Null, Arr results]]"
    by (simp add: len)
  have early: "callback_calls (arr_length c) (take k evs) par_init = []" if "k < length arr" for k
  proof (rule calls_none)
    show "\<forall>e\<in>set (take k evs). \<not> truthy (arg (snd e) 0)"
      using ok by (meson in_set_takeD)
    show "completed par_init + length (take k evs) < arr_length c"
      using that lo by (simp add: par_init_def len evs)
  qed
  have own: "snd (deliver c evs (par_init, w1))
               = w1\<lparr>trace := trace w1 @ [Call f (This_step s) [Null, Arr results]]\<rparr>"
    if "callback c = Some f" for f
    using that by (simp add: deliver_calls all invoke_callback_def call_fn_def d(2))
  have dflt: "snd (deliver c evs (par_init, w1)) = snd (step_done s [Null, Arr results] w1)"
    if "callback c = None"
    using that by (simp add: deliver_calls all invoke_callback_def d(2))
  from d(1) evs d(2) len d(4) all early own dflt show ?thesis by blast
qed

theorem parallel_results_index_aligned_witness:
  "three_items \<noteq> [] \<and> length three_outs = length three_items
   \<and> mset [1, 0, 2] = mset [0..<length three_items]
   \<and> list_all (\<lambda>xs. \<not> truthy (arg xs 0)) three_outs
   \<and> step_parallel load_step three_items [] demo_world
       = (Inr Undefined, three_closure, three_dispatched)
   \<and> completions (drop (length (trace demo_world)) (trace three_dispatched)) three_outs [1, 0, 2]
       = [(1, [Undefined, Str ''rB'']), (0, [Null, Str ''rA'']), (2, [Null, Str ''rC''])]
   \<and> callback_calls 3
        [(1, [Undefined, Str ''rB'']), (0, [Null, Str ''rA'']), (2, [Null, Str ''rC''])] par_init
       = [[Null, Arr [Some (Str ''rA''), Some (Str ''rB''), Some (Str ''rC'')]]]
   \<and> callback_calls 3 [(1, [Undefined, Str ''rB'']), (0, [Null, Str ''rA''])] par_init = []
   \<and> callback three_closure = None
   \<and> snd (deliver three_closure
             [(1, [Undefined, Str ''rB'']), (0, [Null, Str ''rA'']), (2, [Null, Str ''rC''])]
             (par_init, three_dispatched))
       = three_dispatched
           \<lparr>tasks := (tasks demo_world)(0 := demo_task\<lparr>currIndex := 1\<rparr>),
            trace := trace three_dispatched
              @ [Handler 0 1 [Arr [Some (Str ''rA''), Some (Str ''rB''), Some (Str ''rC'')]]]\<rparr>
   \<and> file_items \<noteq> [] \<and> length file_outs = length file_items
   \<and> mset [1, 0] = mset [0..<length file_items]
   \<and> list_all (\<lambda>xs. \<not> truthy (arg xs 0)) file_outs
   \<and> step_parallel load_step file_items [Fn ''readFile'', Fn ''cb''] demo_world
       = (Inr Undefined, file_closure, file_dispatched)
   \<and> completions (drop (length (trace demo_world)) (trace file_dispatched)) file_outs [1, 0]
       = [(1, [Null, Str ''B'']), (0, [Null, Str ''A''])]
   \<and> callback file_closure = Some (Fn ''cb'')
   \<and> snd (deliver file_closure [(1, [Null, Str ''B'']), (0, [Null, Str ''A''])]
             (par_init, file_dispatched))
       = file_dispatched\<lparr>trace := trace file_dispatched
           @ [Call (Fn ''cb'') (This_step load_step)
                [Null, Arr [Some (Str ''A''), Some (Str ''B'')]]]\<rparr>"
  using parallel_results_index_aligned
    [where arr = three_items and outs = three_outs and order = "[1, 0, 2]"
       and evs = "completions (drop (length (trace demo_world)) (trace three_dispatched))
                    three_outs [1, 0, 2]"
       and results = "map (\<lambda>xs. Some (arg xs 1)) three_outs"
       and s = load_step and args = "[]" and w = demo_world and c = three_closure
       and ?w1.0 = three_dispatched]
    parallel_results_index_aligned
    [where arr = file_items and outs = file_outs and order = "[1, 0]"
       and evs = "completions (drop (length (trace demo_world)) (trace file_dispatched))
                    file_outs [1, 0]"
       and results = "map (\<lambda>xs. Some (arg xs 1)) file_outs"
       and s = load_step and args = "[Fn ''readFile'', Fn ''cb'']" and w = demo_world
       and c = file_closure and ?w1.0 = file_dispatched]
  by (simp add: demo_defs parallel_defs upt_rec step_done_def step_next_def step_jump_def
      targetStep_def getStep_def task_run_def)

text \<open>
  C3 as it is stated, for every array of items, fails on the empty array: all of its branches,
  of which there are none, have completed, and the callback has not been called.
\<close>

theorem parallel_empty_results_counterexample:
  "step_parallel load_step [] [Fn ''it'', Fn ''cb''] demo_world
     = (Inr Undefined, empty_closure, demo_world)
   \<and> mset ([] :: nat list) = mset [0..<length ([] :: jsval list)]
   \<and> completions (drop (length (trace demo_world)) (trace demo_world)) [] [] = []
   \<and> callback_calls (arr_length empty_closure) [] par_init = []
   \<and> callback_calls (arr_length empty_closure) [] par_init \<noteq> [[Null, Arr []]]
   \<and> snd (deliver empty_closure [] (par_init, demo_world)) = demo_world"
  by (simp add: demo_defs parallel_defs)

text \<open>
  C1, as the code has it. When every branch of a non-empty \<^verbatim>\<open>parallel\<close> completes once,
  the callback is called once with \<^verbatim>\<open>(null, results)\<close> if no branch reports an error, and
  otherwise once for every branch that reports an error, with that error, in the order in which
  the errors are reported; a branch that completes without an error after an error of another
  causes no call. So the callback is called exactly once when at most one branch reports an
  error.
\<close>

theorem parallel_callback_calls:
  assumes "arr \<noteq> []" and "length outs = length arr"
    and "mset order = mset [0..<length arr]"
    and "evs = map (\<lambda>i. (i, outs ! i)) order"
    and "step_parallel s arr args w = (res, c, w1)"
  shows "callback_calls (arr_length c) evs par_init
           = (if \<forall>xs\<in>set outs. \<not> truthy (arg xs 0)
              then [[Null, Arr (map (\<lambda>xs. Some (arg xs 1)) outs)]]
              else map (\<lambda>i. [arg (outs ! i) 0]) (filter (\<lambda>i. truthy (arg (outs ! i) 0)) order))
       \<and> (length (filter (\<lambda>xs. truthy (arg xs 0)) outs) \<le> 1 \<longrightarrow>
            length (callback_calls (arr_length c) evs par_init) = 1)
       \<and> snd (deliver c evs (par_init, w1))
           = foldl (\<lambda>w' a. snd (invoke_callback c a w')) w1
               (callback_calls (arr_length c) evs par_init)"
proof -
  let ?err = "\<lambda>xs. truthy (arg xs 0)"
  have len: "arr_length c = length arr"
    using assms(5) by (auto simp: step_parallel_def Let_def split: if_splits prod.splits)
  have lo: "length order = length arr"
    using assms(3) by (metis length_upt mset_eq_length minus_nat.diff_0)
  have so: "set order = {0..<length outs}"
    using assms(2,3) by (metis mset_eq_setD set_upt)
  have nerr: "length (filter (\<lambda>i. ?err (outs ! i)) order) = length (filter ?err outs)"
    using perm_filter_length [of order outs ?err] assms(2,3) by simp
  have calls: "callback_calls (arr_length c) evs par_init
           = (if \<forall>xs\<in>set outs. \<not> ?err xs
              then [[Null, Arr (map (\<lambda>xs. Some (arg xs 1)) outs)]]
              else map (\<lambda>i. [arg (outs ! i) 0]) (filter (\<lambda>i. ?err (outs ! i)) order))"
  proof (cases "\<forall>xs\<in>set outs. \<not> ?err xs")
    case True
    then have ok: "\<forall>e\<in>set evs. \<not> truthy (arg (snd e) 0)"
      using so by (auto simp: assms(4))
    have "evs \<noteq> []" using lo assms(1) by (auto simp: assms(4))
    then have "callback_calls (length arr) evs par_init
                 = [[Null, Arr (write_all (result par_init) evs)]]"
      using ok lo by (intro calls_all_ok) (simp_all add: par_init_def assms(4))
    moreover have "write_all (result par_init) evs = map (\<lambda>xs. Some (arg xs 1)) outs"
      using write_all_perm [of order outs] assms(2,3) by (simp add: par_init_def assms(4))
    ultimately show ?thesis using True by (simp add: len)
  next
    case False
    then have "filter ?err outs \<noteq> []" by (auto simp: filter_empty_conv)
    then have "0 < length (filter (\<lambda>i. ?err (outs ! i)) order)"
      using nerr by simp
    moreover have "length (filter (\<lambda>i. ?err (outs ! i)) order)
                     + length (filter (\<lambda>i. \<not> ?err (outs ! i)) order) = length order"
      by (rule sum_length_filter_compl)
    ultimately have "length (filter (\<lambda>i. \<not> ?err (outs ! i)) order) < length arr"
      using lo by linarith
    then have "completed par_init + length (filter (\<lambda>e. \<not> truthy (arg (snd e) 0)) evs)
                 < arr_length c"
      by (simp add: par_init_def len assms(4) filter_map comp_def)
    from calls_errors_only [OF this]
    have "callback_calls (arr_length c) evs par_init
            = map (\<lambda>i. [arg (outs ! i) 0]) (filter (\<lambda>i. ?err (outs ! i)) order)"
      by (simp add: assms(4) filter_map comp_def)
    with False show ?thesis by auto
  qed
  have once: "length (callback_calls (arr_length c) evs par_init) = 1"
    if "length (filter ?err outs) \<le> 1"
  proof (cases "\<forall>xs\<in>set outs. \<not> ?err xs")
    case True
    then show ?thesis using calls by simp
  next
    case False
    then have "filter ?err outs \<noteq> []" by (auto simp: filter_empty_conv)
    then have "length (filter ?err outs) = 1" using that by (cases "filter ?err outs") auto
    then show ?thesis using calls False nerr by simp
  qed
  show ?thesis using calls once by (simp add: deliver_calls)
qed

theorem parallel_callback_calls_witness:
  "two_items \<noteq> [] \<and> length first_fails = length two_items
   \<and> mset [0, 1] = mset [0..<length two_items]
   \<and> step_parallel load_step two_items [Fn ''cb''] demo_world
       = (Inr Undefined, two_closure, two_dispatched)
   \<and> length (filter (\<lambda>xs. truthy (arg xs 0)) first_fails) \<le> 1
   \<and> callback_calls 2 [(0, [Obj ''errA'']), (1, [Null, Str ''rB''])] par_init = [[Obj ''errA'']]
   \<and> snd (deliver two_closure [(0, [Obj ''errA'']), (1, [Null, Str ''rB''])]
             (par_init, two_dispatched))
       = two_dispatched\<lparr>trace := trace two_dispatched
           @ [Call (Fn ''cb'') (This_step load_step) [Obj ''errA'']]\<rparr>"
  using parallel_callback_calls
    [where arr = two_items and outs = first_fails and order = "[0, 1]"
       and evs = "map (\<lambda>i. (i, first_fails ! i)) [0, 1]" and s = load_step
       and args = "[Fn ''cb'']" and w = demo_world and res = "Inr Undefined" and c = two_closure
       and ?w1.0 = two_dispatched]
  by (simp add: demo_defs parallel_defs upt_rec)

text \<open>
  C1 as it is stated fails: when both branches of \<^verbatim>\<open>parallel([fnA, fnB], cb)\<close> report an
  error, \<^verbatim>\<open>cb\<close> is called twice, once with each error.
\<close>

theorem parallel_two_errors_counterexample:
  "step_parallel load_step two_items [Fn ''cb''] demo_world
     = (Inr Undefined, two_closure, two_dispatched)
   \<and> callback_calls (arr_length two_closure) both_fail par_init
       = [[Obj ''errA''], [Obj ''errB'']]
   \<and> \<not> length (callback_calls (arr_length two_closure) both_fail par_init) \<le> 1
   \<and> trace (snd (deliver two_closure both_fail (par_init, two_dispatched)))
       = [Call (Fn ''fnA'') This_undefined [Bound_done 0],
          Call (Fn ''fnB'') This_undefined [Bound_done 1],
          Call (Fn ''cb'') (This_step load_step) [Obj ''errA''],
          Call (Fn ''cb'') (This_step load_step) [Obj ''errB'']]"
  by (simp add: demo_defs parallel_defs)

text \<open>
  C10. \<^verbatim>\<open>parallel\<close> on an empty array returns at once and adds nothing to the world: it
  calls no branch, hands out no handler and does not call the callback, although the count of
  completed branches has already reached \<^verbatim>\<open>arr.length\<close>. A completion can only come from a
  handler bound to a position of the array, so there is none, and the callback is never called.
\<close>

theorem parallel_empty_never_calls_back:
  assumes "step_parallel s [] args w = (res, c, w1)"
    and "\<forall>e\<in>set evs. fst e < arr_length c"
  shows "res = Inr Undefined \<and> w1 = w \<and> arr_length c = 0
       \<and> arr_length c \<le> completed par_init
       \<and> evs = []
       \<and> callback_calls (arr_length c) evs par_init = []
       \<and> deliver c evs (par_init, w1) = (par_init, w)"
proof -
  have c: "res = Inr Undefined \<and> w1 = w \<and> arr_length c = 0"
    using assms(1) by (auto simp: step_parallel_def arg_def Let_def)
  with assms(2) have "evs = []" by (cases evs) auto
  with c show ?thesis by simp
qed

theorem parallel_empty_never_calls_back_witness:
  "step_parallel load_step [] [Fn ''it'', Fn ''cb''] demo_world
     = (Inr Undefined, \<lparr>root = load_step, arr_length = 0, callback = Some (Fn ''cb'')\<rparr>, demo_world)
   \<and> list_all
         (\<lambda>e. fst e < arr_length \<lparr>root = load_step, arr_length = 0, callback = Some (Fn ''cb'')\<rparr>)
         ([] :: (nat \<times> jsval list) list)
   \<and> trace (snd (snd (step_parallel load_step [] [Fn ''it'', Fn ''cb''] demo_world))) = []
   \<and> deliver \<lparr>root = load_step, arr_length = 0, callback = Some (Fn ''cb'')\<rparr> []
         (par_init, demo_world) = (par_init, demo_world)"
  using parallel_empty_never_calls_back
    [where s = load_step and args = "[Fn ''it'', Fn ''cb'']" and w = demo_world
       and res = "Inr Undefined"
       and c = "\<lparr>root = load_step, arr_length = 0, callback = Some (Fn ''cb'')\<rparr>"
       and ?w1.0 = demo_world and evs = "[]"]
  by (simp add: demo_defs parallel_defs)

end
